theory Spec2Isabelle
  imports Complex_Main "HOL-Library.AList" "HOL-Library.Multiset"
begin

section \<open>Token snapshot, REST path (getTokenSnapshot)\<close>

text \<open>
  The REST variant pages through the transfer records of a token, keeps a set of the
  addresses it has seen and a running balance per address, and writes the balances above
  a dust threshold to a CSV file.

  Numbers: JavaScript's \<open>Number\<close> is an IEEE double. The balances are modelled as exact
  rationals, which is the reading the specification takes ("ignoring floating error");
  rounding, \<open>NaN\<close> and the infinities are outside this model. The field \<open>value\<close> of a
  transfer record is the decimal string of an integer count of the smallest unit; it is
  modelled as the integer that \<open>Number(tx.value)\<close> reads from it.
\<close>

subsection \<open>Constants\<close>

definition LIMIT_PER_PAGE :: nat where
  "LIMIT_PER_PAGE = 100"

definition DELAY_MS :: nat where
  "DELAY_MS = 10"

definition EPSILON :: rat where
  "EPSILON = 1 / 10 ^ 10"

subsection \<open>Data\<close>

text \<open>\<open>interface TokenTransaction { from; to; value }\<close>\<close>

record TokenTransaction =
  tx_from :: string
  tx_to :: string
  tx_value :: int

text \<open>\<open>interface ApiResponse { body }\<close>; a missing \<open>body\<close> is \<open>None\<close>.\<close>

record ApiResponse =
  body :: "TokenTransaction list option"

text \<open>
  What a rejected request carries: an axios error with \<open>error.response?.status\<close>
  (absent when there was no response), or any other thrown value.
\<close>

datatype thrown = AxiosError "nat option" | OtherError

datatype 'a outcome = Throws thrown | Resolves 'a

text \<open>
  The provider answers \<open>axios.get(.., {pageNumber, limit})\<close>: for each page number either a
  rejection or a response whose \<open>data\<close> may be missing. The loop asks for each page number
  at most once, so a function of the page number describes every run.
\<close>

type_synonym provider = "nat \<Rightarrow> ApiResponse option outcome"

datatype error = InvalidAddressFormat | RateLimitExceeded | Rethrown thrown | TypeError

datatype event =
    CreateWriteStream
  | WriteHeader
  | HttpGet nat
  | Delay nat
  | WriteRow string rat
  | EndStream

record snapshot_state =
  uniqueAddresses :: "string list"
  balances :: "(string \<times> rat) list"
  trace :: "event list"

subsection \<open>Address validation\<close>

text \<open>
  The regular expression \<open>/^0x[a-fA-F0-9]{40}$/\<close>, matched from the start of the input:
  the two literal characters, exactly forty characters of the class, then the end of the
  input. Every string it accepts is ASCII, so bytes and UTF-16 code units agree on it.
\<close>

definition in_range :: "char \<Rightarrow> char \<Rightarrow> char \<Rightarrow> bool" where
  "in_range lo hi c = ((of_char lo :: nat) \<le> of_char c \<and> (of_char c :: nat) \<le> of_char hi)"

definition hex_class :: "char \<Rightarrow> bool" where
  "hex_class c =
     (in_range CHR ''a'' CHR ''f'' c \<or> in_range CHR ''A'' CHR ''F'' c \<or> in_range CHR ''0'' CHR ''9'' c)"

fun match_class_rep :: "nat \<Rightarrow> string \<Rightarrow> string option" where
  "match_class_rep 0 s = Some s"
| "match_class_rep (Suc n) [] = None"
| "match_class_rep (Suc n) (c # s) = (if hex_class c then match_class_rep n s else None)"

definition address_regex_test :: "string \<Rightarrow> bool" where
  "address_regex_test s =
     (case s of
        c0 # c1 # rest \<Rightarrow>
          c0 = CHR ''0'' \<and> c1 = CHR ''x'' \<and>
          (case match_class_rep 40 rest of Some [] \<Rightarrow> True | _ \<Rightarrow> False)
      | _ \<Rightarrow> False)"



subsection \<open>Ledger aggregation\<close>

text \<open>\<open>uniqueAddresses.add(a)\<close>: a JavaScript \<open>Set\<close> keeps insertion order and ignores repeats.\<close>

definition set_add :: "string \<Rightarrow> string list \<Rightarrow> string list" where
  "set_add a xs = (if a \<in> set xs then xs else xs @ [a])"

text \<open>
  \<open>balances[k] || 0\<close>: a missing entry and a zero entry both read as 0. The object keeps
  its keys in insertion order, which \<open>AList.update\<close> does as well.
\<close>

definition balance_or_zero :: "(string \<times> rat) list \<Rightarrow> string \<Rightarrow> rat" where
  "balance_or_zero bs k = (case map_of bs k of None \<Rightarrow> 0 | Some b \<Rightarrow> (if b = 0 then 0 else b))"

definition process_tx :: "snapshot_state \<Rightarrow> TokenTransaction \<Rightarrow> snapshot_state" where
  "process_tx st tx =
     (let ua = set_add (tx_to tx) (set_add (tx_from tx) (uniqueAddresses st));
          v = of_int (tx_value tx) / 10 ^ 18;
          b1 = AList.update (tx_from tx) (balance_or_zero (balances st) (tx_from tx) - v) (balances st);
          b2 = AList.update (tx_to tx) (balance_or_zero b1 (tx_to tx) + v) b1
      in st\<lparr>uniqueAddresses := ua, balances := b2\<rparr>)"

subsection \<open>The pagination loop\<close>

text \<open>
  One iteration requests the page; a rejection leaves the loop through the \<open>catch\<close> block.
  A response with a body of at least one record is folded into the ledger; the loop goes on
  to the next page unless the body has fewer than \<open>LIMIT_PER_PAGE\<close> records, and sleeps
  \<open>DELAY_MS\<close> either way. Any other response ends the loop at once. The loop has no bound
  of its own, hence \<open>None\<close> stands for a run that never leaves it.
\<close>

partial_function (option) fetch_loop ::
  "provider \<Rightarrow> nat \<Rightarrow> snapshot_state \<Rightarrow> (snapshot_state \<times> thrown option) option" where
  "fetch_loop p pageNumber st =
     (let st1 = st\<lparr>trace := trace st @ [HttpGet pageNumber]\<rparr> in
      case p pageNumber of
        Throws e \<Rightarrow> Some (st1, Some e)
      | Resolves response \<Rightarrow>
          (case (case response of None \<Rightarrow> None | Some d \<Rightarrow> body d) of
             None \<Rightarrow> Some (st1, None)
           | Some txs \<Rightarrow>
               if length txs > 0 then
                 (let st2 = foldl process_tx st1 txs;
                      st3 = st2\<lparr>trace := trace st2 @ [Delay DELAY_MS]\<rparr>
                  in if length txs < LIMIT_PER_PAGE then Some (st3, None)
                     else fetch_loop p (pageNumber + 1) st3)
               else Some (st1, None)))"

definition dust_filter :: "(string \<times> rat) list \<Rightarrow> (string \<times> rat) list" where
  "dust_filter bs = filter (\<lambda>(address, balance). balance > EPSILON) bs"

definition initial_state :: snapshot_state where
  "initial_state = \<lparr>uniqueAddresses = [], balances = [], trace = [CreateWriteStream, WriteHeader]\<rparr>"

text \<open>
  \<open>getTokenSnapshot\<close>: the result is the trace of effects and either the error thrown to
  the caller or the returned array of addresses. \<open>None\<close> as the argument is \<open>undefined\<close>.
\<close>

definition getTokenSnapshot ::
  "string option \<Rightarrow> provider \<Rightarrow> (event list \<times> (error + string list)) option" where
  "getTokenSnapshot tokenAddress p =
     (if (case tokenAddress of None \<Rightarrow> True | Some s \<Rightarrow> s = [] \<or> \<not> address_regex_test s)
      then Some ([], Inl InvalidAddressFormat)
      else
        case fetch_loop p 1 initial_state of
          None \<Rightarrow> None
        | Some (st, Some e) \<Rightarrow>
            Some (trace st,
                  Inl (if e = AxiosError (Some 429) then RateLimitExceeded else Rethrown e))
        | Some (st, None) \<Rightarrow>
            Some (trace st @ map (\<lambda>(address, balance). WriteRow address balance) (dust_filter (balances st))
                    @ [EndStream],
                  Inr (uniqueAddresses st)))"


section \<open>Token holders, GraphQL path (getTokenHolders)\<close>

subsection \<open>Configuration\<close>

definition BATCH_SIZE :: nat where
  "BATCH_SIZE = 10"

definition MAX_RETRIES :: nat where
  "MAX_RETRIES = 3"

definition BASE_DELAY_MS :: nat where
  "BASE_DELAY_MS = 300"

subsection \<open>Data\<close>

text \<open>\<open>interface Transfer\<close>, with the nested \<open>address\<close> and \<open>time\<close> fields flattened.\<close>

record Transfer =
  sender :: string
  receiver :: string
  timestamp :: string

text \<open>\<open>interface TokenHolder { address; balance }\<close>\<close>

record TokenHolder =
  holder_address :: string
  holder_balance :: string

text \<open>
  \<open>interface BalanceResponse\<close>. The code reads it through optional chaining, so every
  level may be missing: \<open>balance_response\<close> is \<open>response.data?.data?.ethereum?.address\<close>
  (\<open>None\<close> when any link of that chain is absent), an entry of it may lack \<open>balances\<close>,
  and an entry of \<open>balances\<close> may lack \<open>value\<close>.
\<close>

record BalanceItem =
  item_value :: "string option"

record AddressItem =
  item_balances :: "BalanceItem list option"

type_synonym balance_response = "AddressItem list option"

text \<open>
  The balance lookup answers \<open>axios.post\<close> for an address, a token and the number of the
  attempt: a rejection or a response.
\<close>

type_synonym lookup = "string \<Rightarrow> string \<Rightarrow> nat \<Rightarrow> balance_response outcome"

datatype lookup_event = Post string nat | Sleep nat

datatype batch_event = ProcessBatch nat "string list" "lookup_event list list" | BatchSleep nat

datatype holders_event = PostTransfers | Enrich "batch_event list" | WriteFileSync "TokenHolder list"

subsection \<open>parseFloat\<close>

text \<open>
  \<open>parseFloat\<close> of ECMAScript on ASCII input: leading white space is dropped, then the
  longest prefix that is a \<open>StrDecimalLiteral\<close> is read (a sign, then \<open>Infinity\<close> or
  digits with an optional fraction and an optional exponent); with no such prefix the
  result is \<open>NaN\<close>. The value is kept exact, where JavaScript rounds it to a double.
\<close>

datatype js_number = NaN | Num rat | Infinity bool

definition is_digit :: "char \<Rightarrow> bool" where
  "is_digit c = in_range CHR ''0'' CHR ''9'' c"

definition is_white_space :: "char \<Rightarrow> bool" where
  "is_white_space c = ((of_char c :: nat) \<in> {9, 10, 11, 12, 13, 32})"

definition digits_value :: "string \<Rightarrow> nat" where
  "digits_value ds = foldl (\<lambda>n c. 10 * n + (of_char c - 48)) 0 ds"

definition exponent_part :: "string \<Rightarrow> int" where
  "exponent_part s =
     (case s of
        [] \<Rightarrow> 0
      | e # r \<Rightarrow>
          if e = CHR ''e'' \<or> e = CHR ''E'' then
            (case r of
               [] \<Rightarrow> 0
             | c # t \<Rightarrow>
                 if c = CHR ''-'' then
                   (if takeWhile is_digit t = [] then 0 else - int (digits_value (takeWhile is_digit t)))
                 else if c = CHR ''+'' then int (digits_value (takeWhile is_digit t))
                 else int (digits_value (takeWhile is_digit r)))
          else 0)"

definition scale :: "rat \<Rightarrow> int \<Rightarrow> rat" where
  "scale m e = (if e < 0 then m / 10 ^ nat (- e) else m * 10 ^ nat e)"

definition unsigned_literal :: "string \<Rightarrow> rat option" where
  "unsigned_literal s =
     (let ip = takeWhile is_digit s; r1 = dropWhile is_digit s in
      case r1 of
        c # t \<Rightarrow>
          if c = CHR ''.'' then
            (let fp = takeWhile is_digit t; r2 = dropWhile is_digit t in
             if ip = [] \<and> fp = [] then None
             else Some (scale (of_nat (digits_value ip) + of_nat (digits_value fp) / 10 ^ length fp)
                          (exponent_part r2)))
          else if ip = [] then None
          else Some (scale (of_nat (digits_value ip)) (exponent_part r1))
      | [] \<Rightarrow> if ip = [] then None else Some (of_nat (digits_value ip)))"

definition parseFloat :: "string \<Rightarrow> js_number" where
  "parseFloat s =
     (let t = dropWhile is_white_space s;
          neg = (case t of c # _ \<Rightarrow> c = CHR ''-'' | [] \<Rightarrow> False);
          u = (case t of c # r \<Rightarrow> if c = CHR ''-'' \<or> c = CHR ''+'' then r else t | [] \<Rightarrow> t)
      in if take 8 u = ''Infinity'' then Infinity (\<not> neg)
         else case unsigned_literal u of
                None \<Rightarrow> NaN
              | Some m \<Rightarrow> Num (if neg then - m else m))"

text \<open>The comparison \<open>x > 0\<close> on numbers: false for \<open>NaN\<close>.\<close>

definition greater_zero :: "js_number \<Rightarrow> bool" where
  "greater_zero x = (case x of NaN \<Rightarrow> False | Num r \<Rightarrow> r > 0 | Infinity pos \<Rightarrow> pos)"

subsection \<open>fetchWithRetry\<close>

text \<open>\<open>xs?.[0]\<close>: the first element, or nothing.\<close>

definition first_of :: "'a list option \<Rightarrow> 'a option" where
  "first_of xs = (case xs of Some (x # _) \<Rightarrow> Some x | _ \<Rightarrow> None)"

text \<open>
  What the \<open>try\<close> block makes of a response: no record when there is no first address
  entry; otherwise the record when \<open>balance\<close> is a non-empty string that \<open>parseFloat\<close>
  reads as a number above zero.
\<close>

definition read_balance :: "string \<Rightarrow> balance_response \<Rightarrow> TokenHolder option" where
  "read_balance addr balanceResponse =
     (case first_of balanceResponse of
        None \<Rightarrow> None
      | Some a0 \<Rightarrow>
          (case (case first_of (item_balances a0) of None \<Rightarrow> None | Some b0 \<Rightarrow> item_value b0) of
             None \<Rightarrow> None
           | Some bal \<Rightarrow>
               if bal \<noteq> [] \<and> greater_zero (parseFloat bal)
               then Some \<lparr>holder_address = addr, holder_balance = bal\<rparr>
               else None))"

text \<open>
  \<open>fetchWithRetry\<close> returns the requests and sleeps it made, in order, and the holder or
  \<open>null\<close>. It is entered with \<open>attempt = 1\<close> (the default) and calls itself with
  \<open>attempt + 1\<close>, so \<open>attempt - 1\<close> is never negative.
\<close>

function fetchWithRetry :: "lookup \<Rightarrow> string \<Rightarrow> string \<Rightarrow> nat \<Rightarrow> lookup_event list \<times> TokenHolder option" where
  "fetchWithRetry api addr tokenAddress attempt =
     (case api addr tokenAddress attempt of
        Resolves balanceResponse \<Rightarrow> ([Post addr attempt], read_balance addr balanceResponse)
      | Throws e \<Rightarrow>
          if attempt < MAX_RETRIES then
            (let delayMs = BASE_DELAY_MS * 2 ^ (attempt - 1);
                 rest = fetchWithRetry api addr tokenAddress (attempt + 1)
             in (Post addr attempt # Sleep delayMs # fst rest, snd rest))
          else ([Post addr attempt], None))"
  by pat_completeness auto
termination
  by (relation "measure (\<lambda>(api, addr, tokenAddress, attempt). MAX_RETRIES - attempt)") auto

declare fetchWithRetry.simps [simp del]

subsection \<open>processBatch and fetchAllBalances\<close>

text \<open>
  \<open>Promise.all\<close> runs the lookups of a batch concurrently and returns their results in the
  order of the addresses; the trace of each lookup is kept apart.
\<close>

definition processBatch :: "lookup \<Rightarrow> string list \<Rightarrow> string \<Rightarrow> lookup_event list list \<times> TokenHolder list" where
  "processBatch api addresses tokenAddress =
     (let results = map (\<lambda>addr. fetchWithRetry api addr tokenAddress 1) addresses
      in (map fst results, List.map_filter snd results))"

text \<open>\<open>Array.prototype.slice(start, stop)\<close> for \<open>0 \<le> start\<close>; both ends are clamped to the length.\<close>

definition slice :: "nat \<Rightarrow> nat \<Rightarrow> 'a list \<Rightarrow> 'a list" where
  "slice start stop xs = drop start (take stop xs)"

text \<open>\<open>Math.ceil(n / d)\<close> on natural numbers.\<close>

definition ceil_div :: "nat \<Rightarrow> nat \<Rightarrow> nat" where
  "ceil_div n d = (if n mod d = 0 then n div d else n div d + 1)"

definition make_chunks :: "'a list \<Rightarrow> 'a list list" where
  "make_chunks addresses =
     map (\<lambda>i. slice (i * BATCH_SIZE) (i * BATCH_SIZE + BATCH_SIZE) addresses)
       [0..<ceil_div (length addresses) BATCH_SIZE]"

definition batch_step ::
  "lookup \<Rightarrow> string \<Rightarrow> nat \<Rightarrow> batch_event list \<times> TokenHolder list \<Rightarrow> nat \<times> string list
     \<Rightarrow> batch_event list \<times> TokenHolder list" where
  "batch_step api tokenAddress chunks_length acc entry =
     (let index = fst entry; chunk = snd entry;
          batch = processBatch api chunk tokenAddress;
          evs = fst acc @ [ProcessBatch index chunk (fst batch)];
          holders = snd acc @ snd batch
      in (if int index < int chunks_length - 1 then evs @ [BatchSleep BASE_DELAY_MS] else evs, holders))"

definition fetchAllBalances :: "lookup \<Rightarrow> string list \<Rightarrow> string \<Rightarrow> batch_event list \<times> TokenHolder list" where
  "fetchAllBalances api addresses tokenAddress =
     (let chunks = make_chunks addresses
      in foldl (batch_step api tokenAddress (length chunks)) ([], []) (enumerate 0 chunks))"

subsection \<open>getTokenHolders\<close>

text \<open>
  The first argument is the token address (\<open>None\<close> when \<open>undefined\<close>, on which
  \<open>tokenAddress.match\<close> raises a \<open>TypeError\<close>), the second what the transfers query gives:
  the array \<open>response.data.data.ethereum.transfers\<close>, or whatever is thrown on the way to it.
\<close>

definition collect_addresses :: "Transfer list \<Rightarrow> string list" where
  "collect_addresses transfers =
     foldl (\<lambda>allAddresses transfer. set_add (receiver transfer) (set_add (sender transfer) allAddresses))
       [] transfers"

definition getTokenHolders ::
  "string option \<Rightarrow> Transfer list outcome \<Rightarrow> lookup \<Rightarrow> holders_event list \<times> (error + unit)" where
  "getTokenHolders tokenAddress transfers_response api =
     (case tokenAddress of
        None \<Rightarrow> ([], Inl TypeError)
      | Some token \<Rightarrow>
          if \<not> address_regex_test token then ([], Inl InvalidAddressFormat)
          else
            (case transfers_response of
               Throws e \<Rightarrow> ([PostTransfers], Inl (Rethrown e))
             | Resolves transfers \<Rightarrow>
                 (let allAddresses = collect_addresses transfers;
                      enriched = fetchAllBalances api allAddresses token
                  in ([PostTransfers, Enrich (fst enriched), WriteFileSync (snd enriched)], Inr Unity))))"

section \<open>Notions used to state the properties\<close>



definition tx_addresses :: "TokenTransaction list \<Rightarrow> string set" where
  "tx_addresses txs = (\<Union>tx\<in>set txs. {tx_from tx, tx_to tx})"

text \<open>
  The number of records of page \<open>n\<close>, when the provider answers with a body; the records
  the loop folds into the ledger; whether the loop goes on after page \<open>n\<close>.
\<close>

definition page_length :: "provider \<Rightarrow> nat \<Rightarrow> nat option" where
  "page_length p n =
     (case p n of
        Resolves (Some d) \<Rightarrow> (case body d of Some txs \<Rightarrow> Some (length txs) | None \<Rightarrow> None)
      | _ \<Rightarrow> None)"

definition page_records :: "provider \<Rightarrow> nat \<Rightarrow> TokenTransaction list" where
  "page_records p n =
     (case p n of
        Resolves (Some d) \<Rightarrow> (case body d of Some txs \<Rightarrow> txs | None \<Rightarrow> [])
      | _ \<Rightarrow> [])"

definition continues :: "provider \<Rightarrow> nat \<Rightarrow> bool" where
  "continues p n = (case page_length p n of Some l \<Rightarrow> LIMIT_PER_PAGE \<le> l | None \<Rightarrow> False)"

definition page_step :: "provider \<Rightarrow> nat \<Rightarrow> snapshot_state \<Rightarrow> snapshot_state" where
  "page_step p n st =
     (let st2 = foldl process_tx (st\<lparr>trace := trace st @ [HttpGet n]\<rparr>) (page_records p n)
      in st2\<lparr>trace := trace st2 @ [Delay DELAY_MS]\<rparr>)"

definition last_step :: "provider \<Rightarrow> nat \<Rightarrow> snapshot_state \<Rightarrow> snapshot_state \<times> thrown option" where
  "last_step p n st =
     (case p n of
        Throws e \<Rightarrow> (st\<lparr>trace := trace st @ [HttpGet n]\<rparr>, Some e)
      | Resolves r \<Rightarrow>
          if page_records p n = [] then (st\<lparr>trace := trace st @ [HttpGet n]\<rparr>, None)
          else (page_step p n st, None))"

fun run_pages :: "provider \<Rightarrow> nat \<Rightarrow> nat \<Rightarrow> snapshot_state \<Rightarrow> snapshot_state" where
  "run_pages p start 0 st = st"
| "run_pages p start (Suc d) st = run_pages p (Suc start) d (page_step p start st)"

text \<open>
  Page \<open>k\<close> is the first page after which the loop does not go on; the records of the
  pages up to \<open>k\<close> that the loop has folded into the ledger.
\<close>

definition first_stop :: "provider \<Rightarrow> nat \<Rightarrow> bool" where
  "first_stop p k = (1 \<le> k \<and> (\<forall>m. 1 \<le> m \<and> m < k \<longrightarrow> continues p m) \<and> \<not> continues p k)"

definition fetched_records :: "provider \<Rightarrow> nat \<Rightarrow> TokenTransaction list" where
  "fetched_records p k = concat (map (page_records p) [1..<Suc k])"

definition requested_pages :: "event list \<Rightarrow> nat list" where
  "requested_pages evs = concat (map (\<lambda>e. case e of HttpGet n \<Rightarrow> [n] | _ \<Rightarrow> []) evs)"

definition written_rows :: "event list \<Rightarrow> (string \<times> rat) list" where
  "written_rows evs = concat (map (\<lambda>e. case e of WriteRow a b \<Rightarrow> [(a, b)] | _ \<Rightarrow> []) evs)"

text \<open>The canonical lower-case form of an address, as the specification has it.\<close>

definition lower_char :: "char \<Rightarrow> char" where
  "lower_char c = (if in_range CHR ''A'' CHR ''Z'' c then char_of (of_char c + (32::nat)) else c)"

definition lowercase :: "string \<Rightarrow> string" where
  "lowercase s = map lower_char s"

section \<open>Notions used for the GraphQL path\<close>

text \<open>The attempt numbers of the requests in a lookup trace, and the lengths of its sleeps.\<close>

definition attempts_made :: "lookup_event list \<Rightarrow> nat list" where
  "attempts_made evs = concat (map (\<lambda>e. case e of Post a n \<Rightarrow> [n] | Sleep ms \<Rightarrow> []) evs)"

definition delays_made :: "lookup_event list \<Rightarrow> nat list" where
  "delays_made evs = concat (map (\<lambda>e. case e of Post a n \<Rightarrow> [] | Sleep ms \<Rightarrow> [ms]) evs)"


definition decimal_string :: "string \<Rightarrow> bool" where
  "decimal_string s = (s \<noteq> [] \<and> list_all is_digit s)"

text \<open>
  The batches and the sleeps between them, in the order of the run: a batch as \<open>Inl\<close> of
  its addresses, a sleep as \<open>Inr\<close> of its length. \<open>intersperse s xs\<close> puts \<open>s\<close> between every
  two neighbours of \<open>xs\<close>.
\<close>

definition batch_shape :: "batch_event list \<Rightarrow> (string list + nat) list" where
  "batch_shape evs = map (\<lambda>e. case e of ProcessBatch i c ts \<Rightarrow> Inl c | BatchSleep ms \<Rightarrow> Inr ms) evs"

definition sleep_count :: "batch_event list \<Rightarrow> nat" where
  "sleep_count evs = length (filter (\<lambda>e. case e of ProcessBatch i c ts \<Rightarrow> False | BatchSleep ms \<Rightarrow> True) evs)"

text \<open>The events of one round of the loop over the batches, \<open>n\<close> being their number.\<close>

definition batch_events :: "lookup \<Rightarrow> string \<Rightarrow> nat \<Rightarrow> nat \<times> string list \<Rightarrow> batch_event list" where
  "batch_events api token n entry =
     ProcessBatch (fst entry) (snd entry) (fst (processBatch api (snd entry) token))
       # (if Suc (fst entry) < n then [BatchSleep BASE_DELAY_MS] else [])"

fun intersperse :: "'a \<Rightarrow> 'a list \<Rightarrow> 'a list" where
  "intersperse s [] = []"
| "intersperse s [x] = [x]"
| "intersperse s (x # y # ys) = x # s # intersperse s (y # ys)"

text \<open>The addresses that some transfer has as its sender or receiver.\<close>

definition transfer_addresses :: "Transfer list \<Rightarrow> string set" where
  "transfer_addresses transfers = (\<Union>t\<in>set transfers. {sender t, receiver t})"

section \<open>Example inputs\<close>

text \<open>The token address of the repository's own example call.\<close>

definition example_token :: string where
  "example_token = ''0x3da3d8cde7b12cd2cbb688e2655bcacd8946399d''"

definition one_token :: TokenTransaction where
  "one_token = \<lparr>tx_from = ''A'', tx_to = ''B'', tx_value = 10 ^ 18\<rparr>"

text \<open>One page with the single transfer of one token from \<open>A\<close> to \<open>B\<close>.\<close>

definition one_transfer_provider :: provider where
  "one_transfer_provider n = (if n = 1 then Resolves (Some \<lparr>body = Some [one_token]\<rparr>) else Resolves None)"


text \<open>A full first page, then a page with one record.\<close>

definition two_page_provider :: provider where
  "two_page_provider n =
     (if n = 1 then Resolves (Some \<lparr>body = Some (replicate 100 one_token)\<rparr>)
      else if n = 2 then Resolves (Some \<lparr>body = Some [one_token]\<rparr>)
      else Resolves None)"

text \<open>A provider that answers every request with the given HTTP status.\<close>

definition failing_provider :: "nat \<Rightarrow> provider" where
  "failing_provider status n = Throws (AxiosError (Some status))"

text \<open>A response that reports the given balance string for the address asked for.\<close>

definition balance_reply :: "string \<Rightarrow> balance_response" where
  "balance_reply v = Some [\<lparr>item_balances = Some [\<lparr>item_value = Some v\<rparr>]\<rparr>]"

text \<open>A lookup that is rejected on the first \<open>k\<close> attempts and then reports \<open>v\<close>.\<close>

definition flaky_lookup :: "nat \<Rightarrow> string \<Rightarrow> lookup" where
  "flaky_lookup k v addr token attempt =
     (if attempt \<le> k then Throws (AxiosError (Some 500)) else Resolves (balance_reply v))"

text \<open>The lookup of the specification's scenario: \<open>C\<close> holds \<open>0\<close>, \<open>D\<close> holds five tokens.\<close>

definition scenario_lookup :: lookup where
  "scenario_lookup addr token attempt =
     Resolves (balance_reply (if addr = ''D'' then ''5000000000000000000'' else ''0''))"

text \<open>Twenty-five addresses.\<close>

definition twenty_five :: "string list" where
  "twenty_five = map (\<lambda>c. [c]) ''abcdefghijklmnopqrstuvwxy''"

text \<open>An address in upper-case and in lower-case hexadecimal digits.\<close>

definition upper_address :: string where
  "upper_address = ''0x3DA3D8CDE7B12CD2CBB688E2655BCACD8946399D''"

definition lower_address :: string where
  "lower_address = ''0x3da3d8cde7b12cd2cbb688e2655bcacd8946399d''"

section \<open>Properties\<close>

subsection \<open>The ledger\<close>

lemma balance_or_zero_alt:
  "balance_or_zero bs k = (case map_of bs k of None \<Rightarrow> 0 | Some b \<Rightarrow> b)"
  by (simp add: balance_or_zero_def split: option.splits)



lemma keys_process_tx:
  "fst ` set (balances (process_tx st tx)) = {tx_from tx, tx_to tx} \<union> fst ` set (balances st)"
  by (auto simp: process_tx_def Let_def dom_update)

lemma distinct_process_tx:
  "distinct (map fst (balances st)) \<Longrightarrow> distinct (map fst (balances (process_tx st tx)))"
  by (simp add: process_tx_def Let_def distinct_update)


lemma keys_foldl:
  "fst ` set (balances (foldl process_tx st txs)) = fst ` set (balances st) \<union> tx_addresses txs"
  by (induction txs arbitrary: st) (auto simp: keys_process_tx tx_addresses_def)

lemma distinct_foldl:
  "distinct (map fst (balances st)) \<Longrightarrow> distinct (map fst (balances (foldl process_tx st txs)))"
  by (induction txs arbitrary: st) (simp_all add: distinct_process_tx)

lemma map_of_eqI:
  assumes "fst ` set bs = fst ` set bs'" and "\<And>k. balance_or_zero bs k = balance_or_zero bs' k"
  shows "map_of bs = map_of bs'"
proof
  fix k
  show "map_of bs k = map_of bs' k"
  proof (cases "map_of bs k")
    case None
    then have "k \<notin> fst ` set bs" by (simp add: map_of_eq_None_iff)
    then have "k \<notin> fst ` set bs'" using assms(1) by simp
    then have "map_of bs' k = None" by (simp add: map_of_eq_None_iff)
    with None show ?thesis by simp
  next
    case (Some b)
    then have "k \<in> fst ` set bs" using map_of_eq_None_iff [of bs k] by simp
    then have "k \<in> fst ` set bs'" using assms(1) by simp
    then obtain b' where b': "map_of bs' k = Some b'"
      using map_of_eq_None_iff [of bs' k] by (cases "map_of bs' k") simp_all
    from assms(2) [of k] Some b' show ?thesis by (simp add: balance_or_zero_alt)
  qed
qed










subsection \<open>Address validation\<close>









subsection \<open>The pagination loop\<close>

lemma continues_iff:
  "continues p n \<longleftrightarrow> (\<exists>d txs. p n = Resolves (Some d) \<and> body d = Some txs \<and> LIMIT_PER_PAGE \<le> length txs)"
  by (auto simp: continues_def page_length_def split: outcome.splits option.splits)

lemma fetch_loop_continue:
  assumes "continues p n"
  shows "fetch_loop p n st = fetch_loop p (Suc n) (page_step p n st)"
proof -
  from assms obtain d txs where *: "p n = Resolves (Some d)" "body d = Some txs" "LIMIT_PER_PAGE \<le> length txs"
    by (auto simp: continues_iff)
  then have "0 < length txs" by (auto simp: LIMIT_PER_PAGE_def)
  with * show ?thesis
    by (subst fetch_loop.simps) (simp add: page_step_def page_records_def Let_def)
qed

lemma fetch_loop_stop:
  assumes "\<not> continues p n"
  shows "fetch_loop p n st = Some (last_step p n st)"
  using assms
  by (subst fetch_loop.simps)
     (auto simp: continues_iff last_step_def page_step_def page_records_def Let_def
           split: outcome.splits option.splits)

lemma fetch_loop_run:
  assumes "\<forall>m. start \<le> m \<and> m < start + d \<longrightarrow> continues p m" and "\<not> continues p (start + d)"
  shows "fetch_loop p start st = Some (last_step p (start + d) (run_pages p start d st))"
  using assms
proof (induction d arbitrary: start st)
  case 0
  then show ?case by (simp add: fetch_loop_stop)
next
  case (Suc d)
  have c: "continues p start" using Suc.prems(1) by simp
  have "fetch_loop p (Suc start) (page_step p start st)
      = Some (last_step p (Suc start + d) (run_pages p (Suc start) d (page_step p start st)))"
    using Suc.prems by (intro Suc.IH) auto
  then show ?case by (simp add: fetch_loop_continue [OF c])
qed

lemma fetch_loop_Some_stops:
  assumes "fetch_loop p n st = Some r"
  shows "\<exists>k\<ge>n. \<not> continues p k"
proof (rule fetch_loop.raw_induct [where P = "\<lambda>p n st r. \<exists>k\<ge>n. \<not> continues p k", OF _ assms], goal_cases)
  case (1 f p n st r)
  show ?case
  proof (cases "continues p n")
    case True
    then obtain d txs where *: "p n = Resolves (Some d)" "body d = Some txs" "LIMIT_PER_PAGE \<le> length txs"
      by (auto simp: continues_iff)
    then have "0 < length txs" by (auto simp: LIMIT_PER_PAGE_def)
    with * 1(2) obtain st' where "f p (n + 1) st' = Some r"
      by (simp add: Let_def)
    from 1(1) [OF this] obtain k where "k \<ge> n + 1" "\<not> continues p k" by blast
    then show ?thesis by (intro exI [of _ k]) simp
  next
    case False
    then show ?thesis by blast
  qed
qed

lemma fetch_loop_Some:
  assumes "fetch_loop p n st = Some r"
  shows "\<exists>d. (\<forall>m. n \<le> m \<and> m < n + d \<longrightarrow> continues p m) \<and> \<not> continues p (n + d)
             \<and> r = last_step p (n + d) (run_pages p n d st)"
proof -
  from fetch_loop_Some_stops [OF assms] obtain k where k: "n \<le> k" "\<not> continues p k" by blast
  define j where "j = (LEAST j. \<not> continues p (n + j))"
  have "\<not> continues p (n + (k - n))" using k by simp
  then have j: "\<not> continues p (n + j)" unfolding j_def by (rule LeastI)
  have less: "continues p (n + i)" if "i < j" for i
    using not_less_Least [of i "\<lambda>j. \<not> continues p (n + j)"] that unfolding j_def by blast
  have all: "\<forall>m. n \<le> m \<and> m < n + j \<longrightarrow> continues p m"
  proof (intro allI impI)
    fix m assume m: "n \<le> m \<and> m < n + j"
    then have "m - n < j" by arith
    from less [OF this] m show "continues p m" by simp
  qed
  from fetch_loop_run [OF all j, of st] assms have "r = last_step p (n + j) (run_pages p n j st)" by simp
  with all j show ?thesis by blast
qed

lemma process_tx_trace_update:
  "process_tx (st\<lparr>trace := t\<rparr>) tx = (process_tx st tx)\<lparr>trace := t\<rparr>"
  by (simp add: process_tx_def Let_def)

lemma foldl_process_tx_trace_update:
  "foldl process_tx (st\<lparr>trace := t\<rparr>) txs = (foldl process_tx st txs)\<lparr>trace := t\<rparr>"
  by (induction txs arbitrary: st) (simp_all add: process_tx_trace_update)

lemma trace_process_tx: "trace (process_tx st tx) = trace st"
  by (simp add: process_tx_def Let_def)

lemma trace_foldl_process_tx: "trace (foldl process_tx st txs) = trace st"
  by (induction txs arbitrary: st) (simp_all add: trace_process_tx)

lemma page_step_eq:
  "page_step p n st
     = (foldl process_tx st (page_records p n))\<lparr>trace := trace st @ [HttpGet n, Delay DELAY_MS]\<rparr>"
  by (simp add: page_step_def Let_def foldl_process_tx_trace_update)

lemma run_pages_eq:
  "run_pages p start d st
     = (foldl process_tx st (concat (map (page_records p) [start..<start + d])))
         \<lparr>trace := trace st @ concat (map (\<lambda>m. [HttpGet m, Delay DELAY_MS]) [start..<start + d])\<rparr>"
proof (induction d arbitrary: start st)
  case 0
  then show ?case by simp
next
  case (Suc d)
  have u: "[start..<start + Suc d] = start # [Suc start..<Suc start + d]"
    by (simp add: upt_rec)
  show ?case
    unfolding u
    by (simp add: Suc.IH page_step_eq foldl_process_tx_trace_update trace_foldl_process_tx)
qed

lemma requested_pages_append:
  "requested_pages (xs @ ys) = requested_pages xs @ requested_pages ys"
  by (simp add: requested_pages_def)

lemma requested_pages_steps:
  "requested_pages (concat (map (\<lambda>m. [HttpGet m, Delay DELAY_MS]) ms)) = ms"
  by (induction ms) (simp_all add: requested_pages_def)

lemma written_rows_append:
  "written_rows (xs @ ys) = written_rows xs @ written_rows ys"
  by (simp add: written_rows_def)

lemma written_rows_steps:
  "written_rows (concat (map (\<lambda>m. [HttpGet m, Delay DELAY_MS]) ms)) = []"
  by (induction ms) (simp_all add: written_rows_def)

lemma written_rows_rows:
  "written_rows (map (\<lambda>(a, b). WriteRow a b) rows) = rows"
  by (induction rows) (auto simp: written_rows_def)

lemma last_step_ledger:
  "uniqueAddresses (fst (last_step p n st)) = uniqueAddresses (foldl process_tx st (page_records p n))"
  "balances (fst (last_step p n st)) = balances (foldl process_tx st (page_records p n))"
  by (auto simp: last_step_def page_step_eq page_records_def split: outcome.splits)

lemma last_step_trace:
  "requested_pages (trace (fst (last_step p n st))) = requested_pages (trace st) @ [n]"
  "written_rows (trace (fst (last_step p n st))) = written_rows (trace st)"
  by (auto simp: last_step_def page_step_eq trace_foldl_process_tx requested_pages_def
        written_rows_def split: outcome.splits)

lemma uniqueAddresses_process_tx:
  "set (uniqueAddresses (process_tx st tx)) = set (uniqueAddresses st) \<union> {tx_from tx, tx_to tx}"
  by (auto simp: process_tx_def Let_def set_add_def)

lemma distinct_uniqueAddresses_process_tx:
  "distinct (uniqueAddresses st) \<Longrightarrow> distinct (uniqueAddresses (process_tx st tx))"
  by (auto simp: process_tx_def Let_def set_add_def)

lemma uniqueAddresses_foldl:
  "set (uniqueAddresses (foldl process_tx st txs)) = set (uniqueAddresses st) \<union> tx_addresses txs"
  by (induction txs arbitrary: st) (auto simp: uniqueAddresses_process_tx tx_addresses_def)

lemma distinct_uniqueAddresses_foldl:
  "distinct (uniqueAddresses st) \<Longrightarrow> distinct (uniqueAddresses (foldl process_tx st txs))"
  by (induction txs arbitrary: st) (simp_all add: distinct_uniqueAddresses_process_tx)

lemma ledger_last_step_run:
  assumes "1 \<le> k"
  shows "uniqueAddresses (fst (last_step p k (run_pages p 1 (k - 1) initial_state)))
           = uniqueAddresses (foldl process_tx initial_state (fetched_records p k))"
    and "balances (fst (last_step p k (run_pages p 1 (k - 1) initial_state)))
           = balances (foldl process_tx initial_state (fetched_records p k))"
    and "requested_pages (trace (fst (last_step p k (run_pages p 1 (k - 1) initial_state)))) = [1..<Suc k]"
    and "written_rows (trace (fst (last_step p k (run_pages p 1 (k - 1) initial_state)))) = []"
proof -
  let ?before = "concat (map (page_records p) [1..<k])"
  let ?steps = "concat (map (\<lambda>m. [HttpGet m, Delay DELAY_MS]) [1..<k])"
  from assms have k: "1 + (k - 1) = k" by simp
  have rp: "run_pages p 1 (k - 1) initial_state
              = (foldl process_tx initial_state ?before)\<lparr>trace := trace initial_state @ ?steps\<rparr>"
    using run_pages_eq [of p 1 "k - 1" initial_state] unfolding k .
  have "[1..<Suc k] = [1..<k] @ [k]" using assms by simp
  then have split: "fetched_records p k = ?before @ page_records p k"
    unfolding fetched_records_def by (simp only: map_append concat_append) simp
  have fold: "foldl process_tx initial_state (fetched_records p k)
                = foldl process_tx (foldl process_tx initial_state ?before) (page_records p k)"
    unfolding split by (rule foldl_append)
  show "uniqueAddresses (fst (last_step p k (run_pages p 1 (k - 1) initial_state)))
           = uniqueAddresses (foldl process_tx initial_state (fetched_records p k))"
    unfolding last_step_ledger rp fold by (simp add: foldl_process_tx_trace_update)
  show "balances (fst (last_step p k (run_pages p 1 (k - 1) initial_state)))
           = balances (foldl process_tx initial_state (fetched_records p k))"
    unfolding last_step_ledger rp fold by (simp add: foldl_process_tx_trace_update)
  have t0: "requested_pages (trace initial_state) = []" "written_rows (trace initial_state) = []"
    by (simp_all add: initial_state_def requested_pages_def written_rows_def)
  show "requested_pages (trace (fst (last_step p k (run_pages p 1 (k - 1) initial_state)))) = [1..<Suc k]"
    unfolding last_step_trace rp using assms
    by (simp add: requested_pages_append requested_pages_steps t0)
  show "written_rows (trace (fst (last_step p k (run_pages p 1 (k - 1) initial_state)))) = []"
    unfolding last_step_trace rp
    by (simp add: written_rows_append written_rows_steps t0)
qed

lemma fetch_loop_first_stop:
  assumes "first_stop p k"
  shows "fetch_loop p 1 initial_state = Some (last_step p k (run_pages p 1 (k - 1) initial_state))"
proof -
  from assms have k: "1 + (k - 1) = k" by (simp add: first_stop_def)
  from assms have "\<forall>m. 1 \<le> m \<and> m < 1 + (k - 1) \<longrightarrow> continues p m" and "\<not> continues p (1 + (k - 1))"
    unfolding k by (simp_all add: first_stop_def)
  from fetch_loop_run [OF this] show ?thesis by (simp only: k)
qed

lemma fetch_loop_result:
  assumes "fetch_loop p 1 initial_state = Some r"
  shows "\<exists>k. first_stop p k \<and> r = last_step p k (run_pages p 1 (k - 1) initial_state)"
proof -
  from fetch_loop_Some [OF assms] obtain d where
    d: "\<forall>m. 1 \<le> m \<and> m < 1 + d \<longrightarrow> continues p m" "\<not> continues p (1 + d)"
       "r = last_step p (1 + d) (run_pages p 1 d initial_state)"
    by blast
  then have "first_stop p (1 + d)" by (simp add: first_stop_def)
  moreover from d(3) have "r = last_step p (1 + d) (run_pages p 1 ((1 + d) - 1) initial_state)" by simp
  ultimately show ?thesis by blast
qed

lemma first_stop_exists:
  assumes "1 \<le> n" "\<not> continues p n"
  shows "\<exists>k. k \<le> n \<and> first_stop p k"
proof -
  define k where "k = (LEAST k. 1 \<le> k \<and> \<not> continues p k)"
  have a: "1 \<le> k \<and> \<not> continues p k"
    unfolding k_def using assms by (intro LeastI [of "\<lambda>k. 1 \<le> k \<and> \<not> continues p k" n]) simp
  have b: "k \<le> n"
    unfolding k_def using assms by (intro Least_le) simp
  have c: "continues p m" if "1 \<le> m" "m < k" for m
    using not_less_Least [of m "\<lambda>k. 1 \<le> k \<and> \<not> continues p k"] that unfolding k_def by blast
  from a b c show ?thesis unfolding first_stop_def by blast
qed

lemma first_stop_unique: "first_stop p k \<Longrightarrow> first_stop p k' \<Longrightarrow> k = k'"
  unfolding first_stop_def by (metis not_less_iff_gr_or_eq)

text \<open>A provider whose pages are all full keeps the loop running for ever.\<close>

lemma fetch_loop_diverges:
  assumes "\<forall>m\<ge>n. continues p m"
  shows "fetch_loop p n st = None"
proof (cases "fetch_loop p n st")
  case None
  then show ?thesis .
next
  case (Some r)
  from fetch_loop_Some_stops [OF this] assms show ?thesis by blast
qed

subsection \<open>getTokenSnapshot\<close>

lemma getTokenSnapshot_valid:
  assumes "address_regex_test a"
  shows "getTokenSnapshot (Some a) p =
     (case fetch_loop p 1 initial_state of
        None \<Rightarrow> None
      | Some (st, Some e) \<Rightarrow>
          Some (trace st, Inl (if e = AxiosError (Some 429) then RateLimitExceeded else Rethrown e))
      | Some (st, None) \<Rightarrow>
          Some (trace st @ map (\<lambda>(address, balance). WriteRow address balance) (dust_filter (balances st))
                  @ [EndStream],
                Inr (uniqueAddresses st)))"
proof -
  from assms have "a \<noteq> []" by (auto simp: address_regex_test_def)
  with assms show ?thesis by (simp add: getTokenSnapshot_def)
qed

lemma getTokenSnapshot_Inr:
  assumes "getTokenSnapshot tokenAddress p = Some (tr, Inr addrs)"
  shows "\<exists>k. first_stop p k
           \<and> addrs = uniqueAddresses (foldl process_tx initial_state (fetched_records p k))
           \<and> written_rows tr = dust_filter (balances (foldl process_tx initial_state (fetched_records p k)))
           \<and> requested_pages tr = [1..<Suc k]"
proof -
  from assms obtain st where st: "fetch_loop p 1 initial_state = Some (st, None)"
    and tr: "tr = trace st @ map (\<lambda>(address, balance). WriteRow address balance) (dust_filter (balances st)) @ [EndStream]"
    and addrs: "addrs = uniqueAddresses st"
    by (auto simp: getTokenSnapshot_def split: if_splits option.splits prod.splits)
  from fetch_loop_result [OF st] obtain k where k: "first_stop p k"
    and r: "(st, None) = last_step p k (run_pages p 1 (k - 1) initial_state)" by blast
  from k have k1: "1 \<le> k" by (simp add: first_stop_def)
  from r have f: "fst (last_step p k (run_pages p 1 (k - 1) initial_state)) = st"
    by (metis fst_conv)
  note l = ledger_last_step_run [OF k1, of p, unfolded f]
  have "written_rows tr = dust_filter (balances st)"
    unfolding tr by (simp add: written_rows_append written_rows_rows l(4)) (simp add: written_rows_def)
  moreover have "requested_pages tr = [1..<Suc k]"
    unfolding tr by (simp add: requested_pages_append l(3)) (auto simp: requested_pages_def split: prod.splits)
  ultimately show ?thesis using k addrs l(1,2) by auto
qed



subsection \<open>Runs on the example inputs\<close>

lemma example_token_valid: "address_regex_test example_token"
  unfolding example_token_def by code_simp

lemma one_transfer_run:
  "getTokenSnapshot (Some example_token) one_transfer_provider
     = Some ([CreateWriteStream, WriteHeader, HttpGet 1, Delay 10, WriteRow ''B'' 1, EndStream],
             Inr [''A'', ''B''])"
proof -
  have c: "\<not> continues one_transfer_provider 1"
    by (simp add: continues_def page_length_def one_transfer_provider_def LIMIT_PER_PAGE_def)
  show ?thesis
    unfolding getTokenSnapshot_valid [OF example_token_valid] fetch_loop_stop [OF c]
    by (simp add: last_step_def page_step_def page_records_def process_tx_def initial_state_def
          one_transfer_provider_def one_token_def
          balance_or_zero_def set_add_def dust_filter_def EPSILON_def DELAY_MS_def Let_def)
qed


lemma two_page_stop: "first_stop two_page_provider 2"
proof -
  have "continues two_page_provider m" if "1 \<le> m" "m < 2" for m
  proof -
    from that have "m = 1" by simp
    then show ?thesis
      by (simp add: continues_def page_length_def two_page_provider_def LIMIT_PER_PAGE_def)
  qed
  moreover have "\<not> continues two_page_provider 2"
    by (simp add: continues_def page_length_def two_page_provider_def LIMIT_PER_PAGE_def)
  ultimately show ?thesis by (simp add: first_stop_def)
qed

subsection \<open>Pagination\<close>

text \<open>
  C4. The loop starts at page 1. If some page \<open>n\<close> is not followed by another request
  (the request is rejected, the body is missing, or it has fewer than \<open>LIMIT_PER_PAGE\<close>
  records, zero included), the loop returns. It has then requested exactly the pages
  \<open>1, 2, .., k\<close> in this order, where \<open>k \<le> n\<close> is the first such page: every page before
  \<open>k\<close> came with at least \<open>LIMIT_PER_PAGE\<close> records, which is exactly \<open>LIMIT_PER_PAGE\<close>
  for a provider that respects the limit it is asked for, and page \<open>k\<close> did not.
\<close>

theorem pagination_terminates:
  assumes "1 \<le> n" and "\<not> continues p n"
  shows "\<exists>k st e. k \<le> n \<and> first_stop p k
          \<and> fetch_loop p 1 initial_state = Some (st, e)
          \<and> requested_pages (trace st) = [1..<Suc k]
          \<and> (\<forall>m. 1 \<le> m \<and> m < k \<longrightarrow> (\<exists>l. page_length p m = Some l \<and> LIMIT_PER_PAGE \<le> l))
          \<and> (\<forall>m l. 1 \<le> m \<and> m < k \<and> page_length p m = Some l \<and> l \<le> LIMIT_PER_PAGE
                \<longrightarrow> l = LIMIT_PER_PAGE)
          \<and> (page_length p k = None \<or> (\<exists>l. page_length p k = Some l \<and> l < LIMIT_PER_PAGE))"
proof -
  from first_stop_exists [OF assms] obtain k where k: "k \<le> n" "first_stop p k" by blast
  obtain st e where r: "last_step p k (run_pages p 1 (k - 1) initial_state) = (st, e)"
    by (cases "last_step p k (run_pages p 1 (k - 1) initial_state)")
  from k(2) have k1: "1 \<le> k" by (simp add: first_stop_def)
  have tr: "requested_pages (trace st) = [1..<Suc k]"
    using ledger_last_step_run(3) [OF k1, of p] r by simp
  have full: "\<forall>m. 1 \<le> m \<and> m < k \<longrightarrow> (\<exists>l. page_length p m = Some l \<and> LIMIT_PER_PAGE \<le> l)"
    using k(2) by (auto simp: first_stop_def continues_def split: option.splits)
  then have exact: "\<forall>m l. 1 \<le> m \<and> m < k \<and> page_length p m = Some l \<and> l \<le> LIMIT_PER_PAGE
                \<longrightarrow> l = LIMIT_PER_PAGE"
    by fastforce
  have stop: "page_length p k = None \<or> (\<exists>l. page_length p k = Some l \<and> l < LIMIT_PER_PAGE)"
    using k(2) by (auto simp: first_stop_def continues_def split: option.splits)
  from fetch_loop_first_stop [OF k(2)] r have "fetch_loop p 1 initial_state = Some (st, e)" by simp
  with k tr full exact stop show ?thesis by blast
qed

text \<open>A full first page and a second page with one record: pages 1 and 2 are requested.\<close>

theorem pagination_terminates_witness:
  "(1::nat) \<le> 2 \<and> \<not> continues two_page_provider 2
   \<and> page_length two_page_provider 1 = Some 100 \<and> page_length two_page_provider 2 = Some 1
   \<and> (\<exists>st e. fetch_loop two_page_provider 1 initial_state = Some (st, e)
          \<and> requested_pages (trace st) = [1, 2])"
proof -
  have h: "(1::nat) \<le> 2" by simp
  from two_page_stop have c: "\<not> continues two_page_provider 2" by (simp add: first_stop_def)
  have l: "page_length two_page_provider 1 = Some 100" "page_length two_page_provider 2 = Some 1"
    by (simp_all add: page_length_def two_page_provider_def)
  from pagination_terminates [OF h c] obtain k st e where
    k: "first_stop two_page_provider k"
    and r: "fetch_loop two_page_provider 1 initial_state = Some (st, e)"
           "requested_pages (trace st) = [1..<Suc k]"
    by blast
  from first_stop_unique [OF k two_page_stop] have "k = 2" .
  with r have "requested_pages (trace st) = [1, 2]" by (simp add: upt_rec)
  with r h c l show ?thesis by blast
qed

subsection \<open>Failures of the provider\<close>

text \<open>
  C9. When the request for page \<open>n\<close> is rejected (all pages before it having been full),
  \<open>getTokenSnapshot\<close> fails: with the rate-limit error when the rejection is an axios
  error of status 429, and otherwise with the very error that was thrown. Page \<open>n\<close> has
  been requested once and is the last thing the run did: no retry, no row written, and
  the stream is not ended.
\<close>

theorem rest_failure_propagates:
  assumes "address_regex_test a" and "1 \<le> n" and "\<forall>m. 1 \<le> m \<and> m < n \<longrightarrow> continues p m"
    and "p n = Throws e"
  shows "\<exists>tr. getTokenSnapshot (Some a) p
            = Some (tr, Inl (if e = AxiosError (Some 429) then RateLimitExceeded else Rethrown e))
          \<and> requested_pages tr = [1..<Suc n]
          \<and> last tr = HttpGet n
          \<and> written_rows tr = []
          \<and> EndStream \<notin> set tr"
proof -
  from assms(4) have "\<not> continues p n" by (simp add: continues_def page_length_def)
  with assms(2,3) have fs: "first_stop p n" by (simp add: first_stop_def)
  let ?st = "run_pages p 1 (n - 1) initial_state"
  have ls: "last_step p n ?st = (?st\<lparr>trace := trace ?st @ [HttpGet n]\<rparr>, Some e)"
    using assms(4) by (simp add: last_step_def)
  let ?tr = "trace ?st @ [HttpGet n]"
  have g: "getTokenSnapshot (Some a) p
        = Some (?tr, Inl (if e = AxiosError (Some 429) then RateLimitExceeded else Rethrown e))"
    unfolding getTokenSnapshot_valid [OF assms(1)] fetch_loop_first_stop [OF fs] ls by simp
  note l = ledger_last_step_run [OF assms(2), of p, unfolded ls]
  have "EndStream \<notin> set (trace ?st)"
    by (simp add: run_pages_eq) (auto simp: initial_state_def)
  then have "EndStream \<notin> set ?tr" by simp
  moreover have "last ?tr = HttpGet n" by simp
  moreover from l(3,4) have "requested_pages ?tr = [1..<Suc n]" "written_rows ?tr = []" by simp_all
  ultimately show ?thesis using g by blast
qed

text \<open>A provider that answers 429, and one that answers 500, on the first page.\<close>

theorem rest_failure_propagates_witness:
  "address_regex_test example_token
   \<and> failing_provider 429 1 = Throws (AxiosError (Some 429))
   \<and> (\<exists>tr. getTokenSnapshot (Some example_token) (failing_provider 429) = Some (tr, Inl RateLimitExceeded)
         \<and> requested_pages tr = [1] \<and> last tr = HttpGet 1)
   \<and> (\<exists>tr. getTokenSnapshot (Some example_token) (failing_provider 500)
               = Some (tr, Inl (Rethrown (AxiosError (Some 500))))
         \<and> requested_pages tr = [1] \<and> last tr = HttpGet 1)"
proof -
  have n: "(1::nat) \<le> 1" by simp
  have b: "\<forall>m. 1 \<le> m \<and> m < (1::nat) \<longrightarrow> continues (failing_provider s) m" for s by simp
  have t: "failing_provider s 1 = Throws (AxiosError (Some s))" for s
    by (simp add: failing_provider_def)
  from rest_failure_propagates [OF example_token_valid n b t, of 429]
  have r1: "\<exists>tr. getTokenSnapshot (Some example_token) (failing_provider 429) = Some (tr, Inl RateLimitExceeded)
         \<and> requested_pages tr = [1] \<and> last tr = HttpGet 1"
    by auto
  from rest_failure_propagates [OF example_token_valid n b t, of 500]
  have r2: "\<exists>tr. getTokenSnapshot (Some example_token) (failing_provider 500)
               = Some (tr, Inl (Rethrown (AxiosError (Some 500))))
         \<and> requested_pages tr = [1] \<and> last tr = HttpGet 1"
    by auto
  from example_token_valid t [of 429] r1 r2 show ?thesis by blast
qed

subsection \<open>The dust filter\<close>



subsection \<open>The returned addresses\<close>

text \<open>
  C10. When \<open>getTokenSnapshot\<close> returns, the array it returns holds, without repetition,
  exactly the addresses that are the sender or the receiver of a fetched record. These
  are the keys of the whole ledger, whatever their balance, so every address with a CSV
  row is among them.
\<close>

theorem snapshot_returns_all_addresses:
  assumes "getTokenSnapshot tokenAddress p = Some (tr, Inr addrs)"
  shows "\<exists>k. first_stop p k
     \<and> set addrs = tx_addresses (fetched_records p k)
     \<and> distinct addrs
     \<and> set addrs = fst ` set (balances (foldl process_tx initial_state (fetched_records p k)))
     \<and> fst ` set (written_rows tr) \<subseteq> set addrs"
proof -
  from getTokenSnapshot_Inr [OF assms] obtain k where k: "first_stop p k"
    and a: "addrs = uniqueAddresses (foldl process_tx initial_state (fetched_records p k))"
    and w: "written_rows tr = dust_filter (balances (foldl process_tx initial_state (fetched_records p k)))"
    by blast
  have s: "set addrs = tx_addresses (fetched_records p k)"
    unfolding a by (simp add: uniqueAddresses_foldl) (simp add: initial_state_def)
  have d: "distinct addrs"
    unfolding a by (rule distinct_uniqueAddresses_foldl) (simp add: initial_state_def)
  have b: "fst ` set (balances (foldl process_tx initial_state (fetched_records p k))) = tx_addresses (fetched_records p k)"
    by (simp add: keys_foldl) (simp add: initial_state_def)
  have "fst ` set (written_rows tr) \<subseteq> fst ` set (balances (foldl process_tx initial_state (fetched_records p k)))"
    unfolding w dust_filter_def by auto
  with k s d b show ?thesis by auto
qed

text \<open>
  One token goes from \<open>A\<close> to \<open>B\<close>: the CSV has the row of \<open>B\<close> only, and the returned
  array has \<open>A\<close>, whose balance is \<open>-1\<close>, as well.
\<close>

theorem snapshot_returns_all_addresses_witness:
  "getTokenSnapshot (Some example_token) one_transfer_provider
     = Some ([CreateWriteStream, WriteHeader, HttpGet 1, Delay 10, WriteRow ''B'' 1, EndStream],
             Inr [''A'', ''B''])
   \<and> written_rows [CreateWriteStream, WriteHeader, HttpGet 1, Delay 10, WriteRow ''B'' 1, EndStream]
       = [(''B'', 1)]
   \<and> (\<exists>k. first_stop one_transfer_provider k
         \<and> set [''A'', ''B''] = tx_addresses (fetched_records one_transfer_provider k))"
proof -
  have w: "written_rows [CreateWriteStream, WriteHeader, HttpGet 1, Delay 10, WriteRow ''B'' 1, EndStream]
       = [(''B'', 1)]"
    by (simp add: written_rows_def)
  from snapshot_returns_all_addresses [OF one_transfer_run] one_transfer_run w show ?thesis by blast
qed

subsection \<open>The balance lookup\<close>

lemma fetchWithRetry_resolves:
  "api addr token attempt = Resolves r \<Longrightarrow>
     fetchWithRetry api addr token attempt = ([Post addr attempt], read_balance addr r)"
  by (subst fetchWithRetry.simps) simp

lemma fetchWithRetry_retry:
  "api addr token attempt = Throws e \<Longrightarrow> attempt < MAX_RETRIES \<Longrightarrow>
     fetchWithRetry api addr token attempt
       = (Post addr attempt # Sleep (BASE_DELAY_MS * 2 ^ (attempt - 1))
            # fst (fetchWithRetry api addr token (attempt + 1)),
          snd (fetchWithRetry api addr token (attempt + 1)))"
  by (subst fetchWithRetry.simps) (simp add: Let_def)

lemma fetchWithRetry_exhausted:
  "api addr token attempt = Throws e \<Longrightarrow> \<not> attempt < MAX_RETRIES \<Longrightarrow>
     fetchWithRetry api addr token attempt = ([Post addr attempt], None)"
  by (subst fetchWithRetry.simps) simp


lemma is_digit_code: "is_digit c \<longleftrightarrow> 48 \<le> (of_char c :: nat) \<and> (of_char c :: nat) \<le> 57"
  by (simp add: is_digit_def in_range_def)

lemma digit_not_space: "is_digit c \<Longrightarrow> \<not> is_white_space c"
  by (auto simp: is_digit_code is_white_space_def)

lemma digit_not_sign: "is_digit c \<Longrightarrow> c \<noteq> CHR ''-'' \<and> c \<noteq> CHR ''+'' \<and> c \<noteq> CHR ''I''"
  by (auto simp: is_digit_code)

lemma parseFloat_decimal:
  assumes "decimal_string s"
  shows "parseFloat s = Num (of_nat (digits_value s))"
proof -
  from assms obtain c t where s: "s = c # t" and c: "is_digit c" and t: "list_all is_digit t"
    by (cases s) (auto simp: decimal_string_def)
  have all: "\<forall>x\<in>set s. is_digit x" using c t by (simp add: s list_all_iff)
  have tw: "takeWhile is_digit s = s" using all by (simp add: takeWhile_eq_all_conv)
  have dw: "dropWhile is_digit s = []" using all by (simp add: dropWhile_eq_Nil_conv)
  have ws: "dropWhile is_white_space s = s" using c by (simp add: s digit_not_space)
  have inf: "take 8 s \<noteq> ''Infinity''" using digit_not_sign [OF c] by (auto simp: s)
  have u: "unsigned_literal s = Some (of_nat (digits_value s))"
    by (simp add: unsigned_literal_def tw dw Let_def) (simp add: s)
  show ?thesis
    using digit_not_sign [OF c] inf u
    by (simp add: parseFloat_def ws Let_def) (simp add: s)
qed

lemma processBatch_append:
  "snd (processBatch api (xs @ ys) token) = snd (processBatch api xs token) @ snd (processBatch api ys token)"
  by (simp add: processBatch_def Let_def map_filter_def)

lemma processBatch_Cons:
  "snd (processBatch api (x # xs) token)
     = (case snd (fetchWithRetry api x token 1) of None \<Rightarrow> [] | Some h \<Rightarrow> [h]) @ snd (processBatch api xs token)"
  by (simp add: processBatch_def Let_def map_filter_def split: option.splits)

lemma five_tokens_value: "digits_value ''5000000000000000000'' = 5000000000000000000"
  by (simp add: digits_value_def)

lemma five_tokens_decimal: "decimal_string ''5000000000000000000''"
  by code_simp

lemma five_tokens_positive: "greater_zero (parseFloat ''5000000000000000000'')"
  using five_tokens_value by (simp add: parseFloat_decimal [OF five_tokens_decimal] greater_zero_def)


lemma scenario_D: "read_balance ''D'' (balance_reply ''5000000000000000000'')
   = Some \<lparr>holder_address = ''D'', holder_balance = ''5000000000000000000''\<rparr>"
  by (simp add: read_balance_def balance_reply_def first_of_def five_tokens_positive)


text \<open>
  C2. A lookup makes at most \<open>MAX_RETRIES = 3\<close> requests, numbered 1, 2, .. in order, and
  after the failed request number \<open>k\<close> that is followed by another one it sleeps
  \<open>BASE_DELAY_MS * 2^(k-1)\<close> milliseconds: 300 after the first, 600 after the second.
  A request that is answered ends the lookup with what \<open>read_balance\<close> makes of the
  answer; so a lookup that is rejected twice and then answered has made exactly three
  requests. When all three requests are rejected the lookup returns \<open>null\<close> after exactly
  three requests; it raises nothing, and the batch gives the holders of its other
  addresses as if the address had not been in it. Once the transfers have been fetched,
  \<open>getTokenHolders\<close> ends without an error whatever the lookups do.
\<close>

theorem retry_policy:
  "(api addr token 1 = Resolves r1 \<longrightarrow>
      fetchWithRetry api addr token 1 = ([Post addr 1], read_balance addr r1))
   \<and> (api addr token 1 = Throws e1 \<and> api addr token 2 = Resolves r2 \<longrightarrow>
      fetchWithRetry api addr token 1 = ([Post addr 1, Sleep 300, Post addr 2], read_balance addr r2))
   \<and> (api addr token 1 = Throws e1 \<and> api addr token 2 = Throws e2 \<and> api addr token 3 = Resolves r3 \<longrightarrow>
      fetchWithRetry api addr token 1
        = ([Post addr 1, Sleep 300, Post addr 2, Sleep 600, Post addr 3], read_balance addr r3))
   \<and> (api addr token 1 = Throws e1 \<and> api addr token 2 = Throws e2 \<and> api addr token 3 = Throws e3 \<longrightarrow>
      fetchWithRetry api addr token 1
        = ([Post addr 1, Sleep 300, Post addr 2, Sleep 600, Post addr 3], None)
      \<and> snd (processBatch api (before @ addr # after) token)
          = snd (processBatch api before token) @ snd (processBatch api after token))
   \<and> length (attempts_made (fst (fetchWithRetry api addr token 1))) \<le> MAX_RETRIES
   \<and> attempts_made (fst (fetchWithRetry api addr token 1))
        = [1..<Suc (length (attempts_made (fst (fetchWithRetry api addr token 1))))]
   \<and> delays_made (fst (fetchWithRetry api addr token 1))
        = map (\<lambda>k. BASE_DELAY_MS * 2 ^ (k - 1))
            [1..<length (attempts_made (fst (fetchWithRetry api addr token 1)))]
   \<and> (address_regex_test token \<longrightarrow>
        snd (getTokenHolders (Some token) (Resolves transfers) api) = Inr Unity)"
proof -
  have run: "snd (getTokenHolders (Some token) (Resolves transfers) api) = Inr Unity"
    if "address_regex_test token"
    using that by (simp add: getTokenHolders_def Let_def)
  have two: "(2::nat) = 1 + 1" and three: "(3::nat) = 2 + 1" by simp_all
  have c1: "fetchWithRetry api addr token 1 = ([Post addr 1], read_balance addr r)"
    if "api addr token 1 = Resolves r" for r
    using that fetchWithRetry_resolves [of api addr token 1 r] by simp
  have s1: "fetchWithRetry api addr token 1
      = (Post addr 1 # Sleep 300 # fst (fetchWithRetry api addr token 2), snd (fetchWithRetry api addr token 2))"
    if "api addr token 1 = Throws e" for e
    using that fetchWithRetry_retry [of api addr token 1 e] by (simp add: MAX_RETRIES_def BASE_DELAY_MS_def eval_nat_numeral)
  have s2: "fetchWithRetry api addr token 2
      = (Post addr 2 # Sleep 600 # fst (fetchWithRetry api addr token 3), snd (fetchWithRetry api addr token 3))"
    if "api addr token 2 = Throws e" for e
    using that fetchWithRetry_retry [of api addr token 2 e] by (simp add: MAX_RETRIES_def BASE_DELAY_MS_def eval_nat_numeral)
  have s3: "fetchWithRetry api addr token 3 = ([Post addr 3], None)"
    if "api addr token 3 = Throws e" for e
    using that fetchWithRetry_exhausted [of api addr token 3 e] by (simp add: MAX_RETRIES_def)
  have c2: "fetchWithRetry api addr token 1 = ([Post addr 1, Sleep 300, Post addr 2], read_balance addr r)"
    if "api addr token 1 = Throws e" "api addr token 2 = Resolves r" for e r
    using s1 [of e] that fetchWithRetry_resolves [of api addr token 2 r] by simp
  have c3: "fetchWithRetry api addr token 1
        = ([Post addr 1, Sleep 300, Post addr 2, Sleep 600, Post addr 3], read_balance addr r)"
    if "api addr token 1 = Throws e" "api addr token 2 = Throws e'" "api addr token 3 = Resolves r" for e e' r
    using s1 [of e] s2 [of e'] that fetchWithRetry_resolves [of api addr token 3 r] by simp
  have c4: "fetchWithRetry api addr token 1
        = ([Post addr 1, Sleep 300, Post addr 2, Sleep 600, Post addr 3], None)"
    if "api addr token 1 = Throws e" "api addr token 2 = Throws e'" "api addr token 3 = Throws e''" for e e' e''
    using s1 [of e] s2 [of e'] s3 [of e''] that by simp
  have batch: "snd (processBatch api (before @ addr # after) token)
          = snd (processBatch api before token) @ snd (processBatch api after token)"
    if "fetchWithRetry api addr token 1 = (evs, None)" for evs
    using that by (simp add: processBatch_append processBatch_Cons)
  have shape: "length (attempts_made (fst (fetchWithRetry api addr token 1))) \<le> MAX_RETRIES
   \<and> attempts_made (fst (fetchWithRetry api addr token 1))
        = [1..<Suc (length (attempts_made (fst (fetchWithRetry api addr token 1))))]
   \<and> delays_made (fst (fetchWithRetry api addr token 1))
        = map (\<lambda>k. BASE_DELAY_MS * 2 ^ (k - 1))
            [1..<length (attempts_made (fst (fetchWithRetry api addr token 1)))]"
  proof (cases "api addr token 1")
    case (Resolves r)
    from c1 [of r] this show ?thesis
      by (simp add: attempts_made_def delays_made_def MAX_RETRIES_def)
  next
    case t1: (Throws e)
    show ?thesis
    proof (cases "api addr token 2")
      case (Resolves r)
      from c2 [of e r] t1 this show ?thesis
        by (simp add: attempts_made_def delays_made_def MAX_RETRIES_def BASE_DELAY_MS_def upt_rec)
    next
      case t2: (Throws e')
      show ?thesis
      proof (cases "api addr token 3")
        case (Resolves r)
        from c3 [of e e' r] t1 t2 this show ?thesis
          by (simp add: attempts_made_def delays_made_def MAX_RETRIES_def BASE_DELAY_MS_def upt_rec)
      next
        case (Throws e'')
        from c4 [of e e' e''] t1 t2 this show ?thesis
          by (simp add: attempts_made_def delays_made_def MAX_RETRIES_def BASE_DELAY_MS_def upt_rec)
      qed
    qed
  qed
  from c1 c2 c3 c4 batch shape run show ?thesis by (intro conjI impI) blast+
qed

text \<open>
  A lookup rejected twice and then answered with five tokens, and one rejected three times.
\<close>

theorem retry_policy_witness:
  "flaky_lookup 2 ''5000000000000000000'' ''D'' example_token 1 = Throws (AxiosError (Some 500))
   \<and> flaky_lookup 2 ''5000000000000000000'' ''D'' example_token 2 = Throws (AxiosError (Some 500))
   \<and> flaky_lookup 2 ''5000000000000000000'' ''D'' example_token 3 = Resolves (balance_reply ''5000000000000000000'')
   \<and> fetchWithRetry (flaky_lookup 2 ''5000000000000000000'') ''D'' example_token 1
       = ([Post ''D'' 1, Sleep 300, Post ''D'' 2, Sleep 600, Post ''D'' 3],
          Some \<lparr>holder_address = ''D'', holder_balance = ''5000000000000000000''\<rparr>)
   \<and> fetchWithRetry (flaky_lookup 3 ''5000000000000000000'') ''D'' example_token 1
       = ([Post ''D'' 1, Sleep 300, Post ''D'' 2, Sleep 600, Post ''D'' 3], None)
   \<and> snd (processBatch (flaky_lookup 3 ''5000000000000000000'') ([] @ ''D'' # []) example_token) = []"
proof -
  let ?v = "''5000000000000000000''"
  have a: "flaky_lookup 2 ?v ''D'' example_token 1 = Throws (AxiosError (Some 500))"
          "flaky_lookup 2 ?v ''D'' example_token 2 = Throws (AxiosError (Some 500))"
          "flaky_lookup 2 ?v ''D'' example_token 3 = Resolves (balance_reply ?v)"
    by (simp_all add: flaky_lookup_def)
  have b: "flaky_lookup 3 ?v ''D'' example_token 1 = Throws (AxiosError (Some 500))"
          "flaky_lookup 3 ?v ''D'' example_token 2 = Throws (AxiosError (Some 500))"
          "flaky_lookup 3 ?v ''D'' example_token 3 = Throws (AxiosError (Some 500))"
    by (simp_all add: flaky_lookup_def)
  have e: "snd (processBatch (flaky_lookup 3 ?v) [] example_token) = []"
    by (simp add: processBatch_def map_filter_def)
  from retry_policy [where api = "flaky_lookup 2 ?v" and addr = "''D''" and token = example_token
      and ?e1.0 = "AxiosError (Some 500)" and ?e2.0 = "AxiosError (Some 500)" and ?r3.0 = "balance_reply ?v"] a
  have r1: "fetchWithRetry (flaky_lookup 2 ?v) ''D'' example_token 1
       = ([Post ''D'' 1, Sleep 300, Post ''D'' 2, Sleep 600, Post ''D'' 3],
          Some \<lparr>holder_address = ''D'', holder_balance = ?v\<rparr>)"
    by (simp add: scenario_D)
  from retry_policy [where api = "flaky_lookup 3 ?v" and addr = "''D''" and token = example_token
      and ?e1.0 = "AxiosError (Some 500)" and ?e2.0 = "AxiosError (Some 500)"
      and ?e3.0 = "AxiosError (Some 500)" and before = "[]" and after = "[]"] b e
  have r2: "fetchWithRetry (flaky_lookup 3 ?v) ''D'' example_token 1
       = ([Post ''D'' 1, Sleep 300, Post ''D'' 2, Sleep 600, Post ''D'' 3], None)
     \<and> snd (processBatch (flaky_lookup 3 ?v) ([] @ ''D'' # []) example_token) = []"
    by simp
  from a r1 r2 show ?thesis by blast
qed



subsection \<open>Batching\<close>

lemma slice_eq: "slice (i * n) (i * n + n) xs = take n (drop (i * n) xs)"
  by (simp add: slice_def drop_take)

lemma concat_slices:
  "concat (map (\<lambda>i. slice (i * n) (i * n + n) xs) [0..<k]) = take (k * n) xs"
proof (induction k)
  case 0
  then show ?case by simp
next
  case (Suc k)
  have "concat (map (\<lambda>i. slice (i * n) (i * n + n) xs) [0..<Suc k])
      = take (k * n) xs @ take n (drop (k * n) xs)"
    by (simp only: upt_Suc_append [OF le0] map_append concat_append Suc) (simp add: slice_eq)
  also have "\<dots> = take (k * n + n) xs" by (simp add: take_add)
  also have "k * n + n = Suc k * n" by simp
  finally show ?case .
qed

lemma ceil_div_bounds:
  assumes "0 < d"
  shows "n \<le> ceil_div n d * d" and "n \<noteq> 0 \<Longrightarrow> (ceil_div n d - 1) * d < n"
    and "(ceil_div n d = 0) = (n = 0)"
proof -
  have m: "n div d * d + n mod d = n" by simp
  have lt: "n < d + n div d * d" using assms by (rule dividend_less_div_times)
  show "n \<le> ceil_div n d * d"
  proof (cases "n mod d = 0")
    case True
    with m show ?thesis by (simp add: ceil_div_def)
  next
    case False
    with lt show ?thesis by (simp add: ceil_div_def)
  qed
  show "(ceil_div n d - 1) * d < n" if "n \<noteq> 0"
  proof (cases "n mod d = 0")
    case True
    with m have e: "n div d * d = n" by simp
    with that have "0 < n div d" by (cases "n div d") auto
    then have "(n div d - 1) * d < n div d * d" using assms by simp
    with True e show ?thesis by (simp add: ceil_div_def)
  next
    case False
    then have "0 < n mod d" by simp
    with m have "n div d * d < n" by linarith
    then have "(n div d + 1 - 1) * d < n" by (simp only: add_diff_cancel_right')
    with False show ?thesis by (simp only: ceil_div_def if_False)
  qed
  show "(ceil_div n d = 0) = (n = 0)"
  proof (cases "n mod d = 0")
    case True
    with m have e: "n div d * d = n" by simp
    have "(n div d = 0) = (n = 0)"
    proof
      assume "n div d = 0"
      with e show "n = 0" by simp
    next
      assume "n = 0"
      then show "n div d = 0" by simp
    qed
    with True show ?thesis by (simp add: ceil_div_def)
  next
    case False
    then have "n \<noteq> 0" by (cases "n = 0") simp_all
    with False show ?thesis by (simp add: ceil_div_def)
  qed
qed

lemma length_make_chunks: "length (make_chunks xs) = ceil_div (length xs) BATCH_SIZE"
  by (simp add: make_chunks_def)

lemma concat_make_chunks: "concat (make_chunks xs) = xs"
proof -
  have "0 < BATCH_SIZE" by (simp add: BATCH_SIZE_def)
  from ceil_div_bounds(1) [OF this, of "length xs"] show ?thesis
    by (simp add: make_chunks_def concat_slices)
qed

lemma nth_make_chunks:
  assumes "i < length (make_chunks xs)"
  shows "make_chunks xs ! i = take BATCH_SIZE (drop (i * BATCH_SIZE) xs)"
  using assms by (simp add: make_chunks_def slice_eq)

lemma length_nth_make_chunks:
  assumes "i < length (make_chunks xs)"
  shows "length (make_chunks xs ! i)
           = (if Suc i < length (make_chunks xs) then BATCH_SIZE else length xs - i * BATCH_SIZE)"
    and "0 < length (make_chunks xs ! i)" and "length (make_chunks xs ! i) \<le> BATCH_SIZE"
proof -
  let ?k = "ceil_div (length xs) BATCH_SIZE"
  have pos: "0 < BATCH_SIZE" by (simp add: BATCH_SIZE_def)
  from assms have i: "i < ?k" by (simp add: length_make_chunks)
  then have ne: "length xs \<noteq> 0" using ceil_div_bounds(3) [OF pos, of "length xs"] by auto
  from ceil_div_bounds(2) [OF pos ne] have up: "(?k - 1) * BATCH_SIZE < length xs" .
  from i have "i \<le> ?k - 1" by simp
  then have "i * BATCH_SIZE \<le> (?k - 1) * BATCH_SIZE" by (rule mult_le_mono1)
  from this up have lt: "i * BATCH_SIZE < length xs" by (rule le_less_trans)
  have len: "length (make_chunks xs ! i) = min (length xs - i * BATCH_SIZE) BATCH_SIZE"
    by (simp add: nth_make_chunks [OF assms] min.commute)
  show "0 < length (make_chunks xs ! i)" using lt pos by (simp add: len)
  show "length (make_chunks xs ! i) \<le> BATCH_SIZE" by (simp add: len)
  show "length (make_chunks xs ! i)
           = (if Suc i < length (make_chunks xs) then BATCH_SIZE else length xs - i * BATCH_SIZE)"
  proof (cases "Suc i < length (make_chunks xs)")
    case True
    then have "Suc i \<le> ?k - 1" by (simp add: length_make_chunks)
    then have "Suc i * BATCH_SIZE \<le> (?k - 1) * BATCH_SIZE" by (rule mult_le_mono1)
    from this up have "Suc i * BATCH_SIZE < length xs" by (rule le_less_trans)
    then have "i * BATCH_SIZE + BATCH_SIZE < length xs" by (simp add: add.commute)
    with True show ?thesis by (simp add: len)
  next
    case False
    with i have ik: "Suc i = ?k" by (simp add: length_make_chunks)
    have "length xs \<le> ?k * BATCH_SIZE" by (rule ceil_div_bounds(1) [OF pos])
    then have "length xs \<le> i * BATCH_SIZE + BATCH_SIZE" unfolding ik [symmetric] by simp
    then have "length xs - i * BATCH_SIZE \<le> BATCH_SIZE" by simp
    with False show ?thesis by (simp add: len)
  qed
qed

lemma batch_step_eq:
  "batch_step api token n acc entry
     = (fst acc @ batch_events api token n entry, snd acc @ snd (processBatch api (snd entry) token))"
  by (auto simp: batch_step_def batch_events_def Let_def)

lemma foldl_batch_step:
  "foldl (batch_step api token n) acc entries
     = (fst acc @ concat (map (batch_events api token n) entries),
        snd acc @ concat (map (\<lambda>entry. snd (processBatch api (snd entry) token)) entries))"
  by (induction entries arbitrary: acc) (simp_all add: batch_step_eq)

lemma batch_shape_append: "batch_shape (xs @ ys) = batch_shape xs @ batch_shape ys"
  by (simp add: batch_shape_def)

lemma sleep_count_append: "sleep_count (xs @ ys) = sleep_count xs + sleep_count ys"
  by (simp add: sleep_count_def)

lemma batch_events_head:
  "batch_events api token (i + length (c # cs)) (i, c)
     = ProcessBatch i c (fst (processBatch api c token))
         # (if cs = [] then [] else [BatchSleep BASE_DELAY_MS])"
  by (cases cs) (simp_all add: batch_events_def)

lemma batch_shape_events:
  "batch_shape (concat (map (batch_events api token (i + length cs)) (enumerate i cs)))
     = intersperse (Inr BASE_DELAY_MS) (map Inl cs)"
proof (induction cs arbitrary: i)
  case Nil
  then show ?case by (simp add: batch_shape_def)
next
  case (Cons c cs)
  have n: "i + length (c # cs) = Suc i + length cs" by simp
  have "batch_shape (concat (map (batch_events api token (i + length (c # cs))) (enumerate i (c # cs))))
      = batch_shape (batch_events api token (i + length (c # cs)) (i, c))
          @ batch_shape (concat (map (batch_events api token (Suc i + length cs)) (enumerate (Suc i) cs)))"
    by (simp only: enumerate_simps list.map concat.simps batch_shape_append n)
  also have "\<dots> = batch_shape (batch_events api token (i + length (c # cs)) (i, c))
          @ intersperse (Inr BASE_DELAY_MS) (map Inl cs)"
    by (simp only: Cons.IH)
  also have "batch_shape (batch_events api token (i + length (c # cs)) (i, c))
      = Inl c # (if cs = [] then [] else [Inr BASE_DELAY_MS])"
    by (simp only: batch_events_head) (simp add: batch_shape_def)
  also have "(Inl c # (if cs = [] then [] else [Inr BASE_DELAY_MS])) @ intersperse (Inr BASE_DELAY_MS) (map Inl cs)
      = intersperse (Inr BASE_DELAY_MS) (map Inl (c # cs))"
    by (cases cs) simp_all
  finally show ?case .
qed

lemma sleep_count_events:
  "sleep_count (concat (map (batch_events api token (i + length cs)) (enumerate i cs))) = length cs - 1"
proof (induction cs arbitrary: i)
  case Nil
  then show ?case by (simp add: sleep_count_def)
next
  case (Cons c cs)
  have n: "i + length (c # cs) = Suc i + length cs" by simp
  have "sleep_count (concat (map (batch_events api token (i + length (c # cs))) (enumerate i (c # cs))))
      = sleep_count (batch_events api token (i + length (c # cs)) (i, c))
          + sleep_count (concat (map (batch_events api token (Suc i + length cs)) (enumerate (Suc i) cs)))"
    by (simp only: enumerate_simps list.map concat.simps sleep_count_append n)
  also have "\<dots> = sleep_count (batch_events api token (i + length (c # cs)) (i, c)) + (length cs - 1)"
    by (simp only: Cons.IH)
  also have "sleep_count (batch_events api token (i + length (c # cs)) (i, c))
      = (if cs = [] then 0 else 1)"
    by (simp only: batch_events_head) (simp add: sleep_count_def)
  also have "(if cs = [] then 0 else 1) + (length cs - 1) = length (c # cs) - 1"
    by (cases cs) simp_all
  finally show ?case .
qed

lemma fetchAllBalances_eq:
  "fetchAllBalances api addresses token
     = (concat (map (batch_events api token (length (make_chunks addresses)))
                  (enumerate 0 (make_chunks addresses))),
        concat (map (\<lambda>chunk. snd (processBatch api chunk token)) (make_chunks addresses)))"
proof -
  have "map (\<lambda>entry. snd (processBatch api (snd entry) token)) (enumerate i cs)
          = map (\<lambda>chunk. snd (processBatch api chunk token)) cs" for cs :: "string list list" and i
    by (induction cs arbitrary: i) simp_all
  then show ?thesis
    by (simp add: fetchAllBalances_def Let_def foldl_batch_step)
qed

lemma chunks_of_25:
  assumes "length addresses = 25"
  shows "map length (make_chunks addresses) = [10, 10, 5]"
proof -
  have "[0..<3] = [0, 1, 2]" by (simp add: upt_rec)
  with assms show ?thesis
    by (simp add: make_chunks_def ceil_div_def BATCH_SIZE_def slice_def)
qed

lemma chunks_twenty_five:
  "make_chunks twenty_five
     = [[''a'', ''b'', ''c'', ''d'', ''e'', ''f'', ''g'', ''h'', ''i'', ''j''],
        [''k'', ''l'', ''m'', ''n'', ''o'', ''p'', ''q'', ''r'', ''s'', ''t''],
        [''u'', ''v'', ''w'', ''x'', ''y'']]"
  by code_simp

text \<open>
  C3. \<open>fetchAllBalances\<close> cuts the addresses into consecutive batches: put end to end
  the batches give the address list back, there are \<open>ceil(length / BATCH_SIZE)\<close> of them,
  every batch but the last has \<open>BATCH_SIZE = 10\<close> addresses and the last has the rest,
  between 1 and 10. The run processes the batches in order with one sleep of
  \<open>BASE_DELAY_MS\<close> between every two neighbours and none after the last: for a non-empty
  list that is one sleep less than there are batches, and for the empty list there is no
  batch and no sleep. Twenty-five addresses give batches of 10, 10 and 5 and two sleeps.
\<close>

theorem batching:
  "concat (make_chunks addresses) = addresses
   \<and> length (make_chunks addresses) = ceil_div (length addresses) BATCH_SIZE
   \<and> (\<forall>i<length (make_chunks addresses).
         length (make_chunks addresses ! i)
           = (if Suc i < length (make_chunks addresses) then BATCH_SIZE
              else length addresses - i * BATCH_SIZE)
         \<and> 0 < length (make_chunks addresses ! i)
         \<and> length (make_chunks addresses ! i) \<le> BATCH_SIZE)
   \<and> batch_shape (fst (fetchAllBalances api addresses token))
        = intersperse (Inr BASE_DELAY_MS) (map Inl (make_chunks addresses))
   \<and> sleep_count (fst (fetchAllBalances api addresses token)) = length (make_chunks addresses) - 1
   \<and> (addresses \<noteq> [] \<longrightarrow>
         int (sleep_count (fst (fetchAllBalances api addresses token)))
           = int (length (make_chunks addresses)) - 1)
   \<and> (addresses = [] \<longrightarrow>
         make_chunks addresses = [] \<and> fst (fetchAllBalances api addresses token) = [])
   \<and> (length addresses = 25 \<longrightarrow>
         map length (make_chunks addresses) = [10, 10, 5]
         \<and> sleep_count (fst (fetchAllBalances api addresses token)) = 2)"
proof -
  let ?cs = "make_chunks addresses"
  have pos: "0 < BATCH_SIZE" by (simp add: BATCH_SIZE_def)
  have ev: "fst (fetchAllBalances api addresses token)
              = concat (map (batch_events api token (0 + length ?cs)) (enumerate 0 ?cs))"
    by (simp add: fetchAllBalances_eq)
  have shape: "batch_shape (fst (fetchAllBalances api addresses token))
        = intersperse (Inr BASE_DELAY_MS) (map Inl ?cs)"
    unfolding ev by (rule batch_shape_events)
  have sleeps: "sleep_count (fst (fetchAllBalances api addresses token)) = length ?cs - 1"
    unfolding ev by (rule sleep_count_events)
  have sizes: "\<forall>i<length ?cs.
         length (?cs ! i) = (if Suc i < length ?cs then BATCH_SIZE else length addresses - i * BATCH_SIZE)
         \<and> 0 < length (?cs ! i) \<and> length (?cs ! i) \<le> BATCH_SIZE"
    using length_nth_make_chunks by blast
  have nonempty: "int (sleep_count (fst (fetchAllBalances api addresses token))) = int (length ?cs) - 1"
    if "addresses \<noteq> []"
  proof -
    from that have "length ?cs \<noteq> 0"
      using ceil_div_bounds(3) [OF pos, of "length addresses"] by (simp add: length_make_chunks)
    then have "1 \<le> length ?cs" by (cases ?cs) simp_all
    then have "int (length ?cs - 1) = int (length ?cs) - 1" by (simp add: of_nat_diff)
    then show ?thesis by (simp only: sleeps)
  qed
  have empty: "make_chunks addresses = [] \<and> fst (fetchAllBalances api addresses token) = []"
    if "addresses = []"
    using that by (simp add: fetchAllBalances_eq) (simp add: make_chunks_def ceil_div_def)
  have tf: "map length ?cs = [10, 10, 5] \<and> sleep_count (fst (fetchAllBalances api addresses token)) = 2"
    if "length addresses = 25"
  proof -
    from chunks_of_25 [OF that] have m: "map length ?cs = [10, 10, 5]" .
    then have "length (map length ?cs) = 3" by simp
    then have "length ?cs = 3" by simp
    with m sleeps show ?thesis by simp
  qed
  from concat_make_chunks [of addresses] length_make_chunks [of addresses] sizes shape sleeps
    nonempty empty tf
  show ?thesis by blast
qed

text \<open>Twenty-five one-letter addresses.\<close>

theorem batching_witness:
  "length twenty_five = 25
   \<and> make_chunks twenty_five
     = [[''a'', ''b'', ''c'', ''d'', ''e'', ''f'', ''g'', ''h'', ''i'', ''j''],
        [''k'', ''l'', ''m'', ''n'', ''o'', ''p'', ''q'', ''r'', ''s'', ''t''],
        [''u'', ''v'', ''w'', ''x'', ''y'']]
   \<and> batch_shape (fst (fetchAllBalances scenario_lookup twenty_five example_token))
     = [Inl [''a'', ''b'', ''c'', ''d'', ''e'', ''f'', ''g'', ''h'', ''i'', ''j''], Inr 300,
        Inl [''k'', ''l'', ''m'', ''n'', ''o'', ''p'', ''q'', ''r'', ''s'', ''t''], Inr 300,
        Inl [''u'', ''v'', ''w'', ''x'', ''y'']]
   \<and> sleep_count (fst (fetchAllBalances scenario_lookup twenty_five example_token)) = 2"
proof -
  have l: "length twenty_five = 25" by (simp add: twenty_five_def)
  note b = batching [of twenty_five scenario_lookup example_token]
  from b have "batch_shape (fst (fetchAllBalances scenario_lookup twenty_five example_token))
        = intersperse (Inr BASE_DELAY_MS) (map Inl (make_chunks twenty_five))" by blast
  then have s: "batch_shape (fst (fetchAllBalances scenario_lookup twenty_five example_token))
     = [Inl [''a'', ''b'', ''c'', ''d'', ''e'', ''f'', ''g'', ''h'', ''i'', ''j''], Inr 300,
        Inl [''k'', ''l'', ''m'', ''n'', ''o'', ''p'', ''q'', ''r'', ''s'', ''t''], Inr 300,
        Inl [''u'', ''v'', ''w'', ''x'', ''y'']]"
    by (simp add: chunks_twenty_five BASE_DELAY_MS_def)
  from b l have "sleep_count (fst (fetchAllBalances scenario_lookup twenty_five example_token)) = 2"
    by blast
  with l s chunks_twenty_five show ?thesis by blast
qed

subsection \<open>Addresses as keys\<close>

lemma set_add_set: "set (set_add a xs) = insert a (set xs)"
  by (auto simp: set_add_def)

lemma set_add_distinct: "distinct xs \<Longrightarrow> distinct (set_add a xs)"
  by (simp add: set_add_def)

lemma collect_addresses_aux:
  "set (foldl (\<lambda>allAddresses transfer. set_add (receiver transfer) (set_add (sender transfer) allAddresses)) acc ts)
     = set acc \<union> transfer_addresses ts
   \<and> (distinct acc \<longrightarrow>
        distinct (foldl (\<lambda>allAddresses transfer. set_add (receiver transfer) (set_add (sender transfer) allAddresses)) acc ts))"
  by (induction ts arbitrary: acc) (auto simp: transfer_addresses_def set_add_set set_add_distinct)

lemma collect_addresses_set: "set (collect_addresses ts) = transfer_addresses ts"
  using collect_addresses_aux [of "[]" ts] by (simp add: collect_addresses_def)

lemma collect_addresses_distinct: "distinct (collect_addresses ts)"
  using collect_addresses_aux [of "[]" ts] by (simp add: collect_addresses_def)

lemma lowercase_upper: "lowercase upper_address = lower_address"
  unfolding upper_address_def lower_address_def by code_simp

lemma lowercase_lower: "lowercase lower_address = lower_address"
  unfolding lower_address_def by code_simp

lemma upper_lower_differ: "upper_address \<noteq> lower_address"
  by (simp add: upper_address_def lower_address_def)

text \<open>
  C8, as the code has it. No address is changed on the way in: the unique-address set and
  the ledger of the REST path, and the candidate set of the GraphQL path, hold exactly
  the address strings of the records as the provider gave them, each string once. The
  key is the string itself, compared character by character.
\<close>

theorem addresses_kept_as_given:
  "distinct (uniqueAddresses (foldl process_tx initial_state txs))
   \<and> set (uniqueAddresses (foldl process_tx initial_state txs)) = tx_addresses txs
   \<and> distinct (map fst (balances (foldl process_tx initial_state txs)))
   \<and> fst ` set (balances (foldl process_tx initial_state txs)) = tx_addresses txs
   \<and> distinct (collect_addresses transfers)
   \<and> set (collect_addresses transfers) = transfer_addresses transfers"
proof (intro conjI)
  show "distinct (uniqueAddresses (foldl process_tx initial_state txs))"
    by (rule distinct_uniqueAddresses_foldl) (simp add: initial_state_def)
  show "set (uniqueAddresses (foldl process_tx initial_state txs)) = tx_addresses txs"
    by (simp add: uniqueAddresses_foldl) (simp add: initial_state_def)
  show "distinct (map fst (balances (foldl process_tx initial_state txs)))"
    by (rule distinct_foldl) (simp add: initial_state_def)
  show "fst ` set (balances (foldl process_tx initial_state txs)) = tx_addresses txs"
    by (simp add: keys_foldl) (simp add: initial_state_def)
  show "distinct (collect_addresses transfers)" by (rule collect_addresses_distinct)
  show "set (collect_addresses transfers) = transfer_addresses transfers" by (rule collect_addresses_set)
qed

text \<open>One transfer between an address in upper-case and the same address in lower-case digits.\<close>

theorem addresses_kept_as_given_witness:
  "distinct (uniqueAddresses (foldl process_tx initial_state
        [\<lparr>tx_from = upper_address, tx_to = lower_address, tx_value = 10 ^ 18\<rparr>,
         \<lparr>tx_from = lower_address, tx_to = upper_address, tx_value = 10 ^ 18\<rparr>]))
   \<and> set (uniqueAddresses (foldl process_tx initial_state
        [\<lparr>tx_from = upper_address, tx_to = lower_address, tx_value = 10 ^ 18\<rparr>,
         \<lparr>tx_from = lower_address, tx_to = upper_address, tx_value = 10 ^ 18\<rparr>]))
       = {upper_address, lower_address}
   \<and> set (collect_addresses [\<lparr>sender = upper_address, receiver = lower_address, timestamp = ''t''\<rparr>])
       = {upper_address, lower_address}"
  using addresses_kept_as_given
     [of "[\<lparr>tx_from = upper_address, tx_to = lower_address, tx_value = 10 ^ 18\<rparr>,
           \<lparr>tx_from = lower_address, tx_to = upper_address, tx_value = 10 ^ 18\<rparr>]"
         "[\<lparr>sender = upper_address, receiver = lower_address, timestamp = ''t''\<rparr>]"]
  by (auto simp: tx_addresses_def transfer_addresses_def)

text \<open>
  The claim as written fails: no lower-casing takes place, so two addresses that differ
  only in letter case, and have the same canonical form, get two entries in the
  unique-address set, in the ledger and in the candidate set.
\<close>

theorem case_variants_counterexample:
  "lowercase upper_address = lowercase lower_address
   \<and> upper_address \<noteq> lower_address
   \<and> uniqueAddresses (foldl process_tx initial_state
        [\<lparr>tx_from = upper_address, tx_to = lower_address, tx_value = 10 ^ 18\<rparr>])
       = [upper_address, lower_address]
   \<and> balances (foldl process_tx initial_state
        [\<lparr>tx_from = upper_address, tx_to = lower_address, tx_value = 10 ^ 18\<rparr>])
       = [(upper_address, - 1), (lower_address, 1)]
   \<and> collect_addresses [\<lparr>sender = upper_address, receiver = lower_address, timestamp = ''t''\<rparr>]
       = [upper_address, lower_address]"
  using upper_lower_differ
  by (simp add: lowercase_upper lowercase_lower process_tx_def initial_state_def set_add_def
        balance_or_zero_def collect_addresses_def Let_def)

end
